theory Spec2Isabelle
  imports Main
begin

section \<open>Python strings\<close>

text \<open>
  The source is Python 3: a \<open>str\<close> is a sequence of Unicode code points and \<open>len\<close>
  counts code points. A string is therefore modelled as a list of code points (natural
  numbers), not as a list of bytes. \<open>str\<close> embeds an ASCII literal.
\<close>

type_synonym codepoint = nat

type_synonym pystr = "codepoint list"

definition str :: "string \<Rightarrow> pystr" where
  "str s = map of_char s"

definition len :: "'a list \<Rightarrow> int" where
  "len xs = int (length xs)"

text \<open>
  \<open>str.isspace\<close> on one code point, as CPython decides it: the ASCII table
  (U+0009..U+000D, U+001C..U+0020) and the Unicode white space beyond it.
\<close>

definition isspace :: "codepoint \<Rightarrow> bool" where
  "isspace c \<longleftrightarrow>
     (9 \<le> c \<and> c \<le> 13) \<or> (28 \<le> c \<and> c \<le> 32) \<or> c = 133 \<or> c = 160 \<or> c = 5760 \<or>
     (8192 \<le> c \<and> c \<le> 8202) \<or> c = 8232 \<or> c = 8233 \<or> c = 8239 \<or> c = 8287 \<or> c = 12288"

text \<open>\<open>text.strip()\<close>: white space removed at both ends.\<close>

definition strip :: "pystr \<Rightarrow> pystr" where
  "strip s = rev (dropWhile isspace (rev (dropWhile isspace s)))"

text \<open>
  \<open>xs[lo:hi]\<close>: a negative bound counts from the end, and both bounds are clamped to
  \<open>0..len(xs)\<close>; an empty range gives the empty sequence. Slicing never raises.
\<close>

definition slice :: "'a list \<Rightarrow> int \<Rightarrow> int \<Rightarrow> 'a list" where
  "slice xs lo hi =
     (let n = len xs;
          lo' = (if lo < 0 then max 0 (n + lo) else min n lo);
          hi' = (if hi < 0 then max 0 (n + hi) else min n hi)
      in take (nat (hi' - lo')) (drop (nat lo') xs))"

text \<open>\<open>xs[:k]\<close> and \<open>xs[k:]\<close>.\<close>

definition slice_to :: "'a list \<Rightarrow> int \<Rightarrow> 'a list" where
  "slice_to xs k = slice xs 0 k"

definition slice_from :: "'a list \<Rightarrow> int \<Rightarrow> 'a list" where
  "slice_from xs k = slice xs k (len xs)"

datatype py_error = IndexError

text \<open>
  \<open>text[i]\<close>: the one-character string at index \<open>i\<close>; a negative index counts from the
  end, and an index out of range raises \<open>IndexError\<close>.
\<close>

definition getitem :: "pystr \<Rightarrow> int \<Rightarrow> py_error + pystr" where
  "getitem xs i =
     (let n = len xs; j = (if i < 0 then n + i else i)
      in if 0 \<le> j \<and> j < n then Inr [xs ! nat j] else Inl IndexError)"

text \<open>\<open>sep.join(parts)\<close>.\<close>

fun join :: "pystr \<Rightarrow> pystr list \<Rightarrow> pystr" where
  "join sep [] = []"
| "join sep [x] = x"
| "join sep (x # y # ys) = x @ sep @ join sep (y # ys)"

text \<open>
  \<open>xs.insert(i, x)\<close> for \<open>i \<ge> 0\<close>: \<open>x\<close> goes before the element at index \<open>i\<close>, and at
  the end when \<open>i\<close> is past the last index.
\<close>

definition insert_at :: "nat \<Rightarrow> 'a \<Rightarrow> 'a list \<Rightarrow> 'a list" where
  "insert_at i x xs = take i xs @ x # drop i xs"

section \<open>The thread segmenter: \<open>_split_into_tweets\<close>\<close>

definition TWEET_LIMIT :: int where
  "TWEET_LIMIT = 260"

definition clean_and_trim :: "pystr \<Rightarrow> pystr" where
  "clean_and_trim text = strip text"

definition sentence_endings :: "pystr list" where
  "sentence_endings =
     [str ''. '', str ''! '', str ''? '', str ''.\<newline>'', str ''!\<newline>'', str ''?\<newline>'']"

text \<open>
  The body of \<open>for i in range(safe_max, -1, -1)\<close> in \<open>find_sentence_boundary\<close>, from
  index \<open>i\<close> downwards, with the current \<open>best_split\<close>. At \<open>i = 0\<close> the loop breaks and
  the function reaches its last line,
  \<open>return best_split if best_split > 0 else min(max_length - 20, len(text))\<close>.
  The inner loop over \<open>sentence_endings\<close> returns \<open>i\<close> as soon as \<open>text[i-1:i+1]\<close> equals
  one of the endings. \<open>text[i]\<close> is read only when \<open>best_split == 0\<close> (\<open>and\<close> is
  short-circuit).
\<close>

fun scan_back :: "pystr \<Rightarrow> int \<Rightarrow> nat \<Rightarrow> int \<Rightarrow> py_error + int" where
  "scan_back text max_length 0 best_split =
     Inr (if best_split > 0 then best_split else min (max_length - 20) (len text))"
| "scan_back text max_length (Suc j) best_split =
     (let i = int (Suc j) in
      if slice text (i - 1) (i + 1) \<in> set sentence_endings then Inr i
      else if best_split = 0 then
        (case getitem text i of
           Inl e \<Rightarrow> Inl e
         | Inr c \<Rightarrow> scan_back text max_length j (if c = str '' '' then i else best_split))
      else scan_back text max_length j best_split)"

text \<open>
  \<open>find_sentence_boundary(text, max_length)\<close>. When \<open>safe_max\<close> is negative the range is
  empty, and when it is \<open>0\<close> the only iteration breaks: in both cases the last line is
  reached with \<open>best_split = 0\<close>, which is \<open>scan_back\<close> at index \<open>0\<close>.
\<close>

definition find_sentence_boundary :: "pystr \<Rightarrow> int \<Rightarrow> py_error + int" where
  "find_sentence_boundary text max_length =
     (if len text \<le> max_length then Inr (len text)
      else let best_split = 0;
               safe_max = min (max_length - 20) (len text)
           in scan_back text max_length (nat safe_max) best_split)"

text \<open>
  The two tests of the scan at a position \<open>i\<close>: \<open>text[i-1:i+1]\<close> is one of the
  \<open>sentence_endings\<close>, and \<open>text[i] == ' '\<close>.
\<close>

definition ending_at :: "pystr \<Rightarrow> int \<Rightarrow> bool" where
  "ending_at text i \<longleftrightarrow> slice text (i - 1) (i + 1) \<in> set sentence_endings"

definition space_at :: "pystr \<Rightarrow> int \<Rightarrow> bool" where
  "space_at text i \<longleftrightarrow> getitem text i = Inr (str '' '')"

text \<open>
  Concrete inputs: 261 characters with the sentence ending \<open>". "\<close> at position 255; a
  period followed by a letter; two spaces and no punctuation; two sentence endings; one
  token of 400 characters.
\<close>

definition scenario_D :: pystr where
  "scenario_D = replicate 254 97 @ str ''. '' @ replicate 5 98"

definition lone_period :: pystr where
  "lone_period = replicate 100 97 @ str ''.'' @ replicate 200 98"

definition two_spaces :: pystr where
  "two_spaces = replicate 100 97 @ str '' '' @ replicate 50 98 @ str '' '' @ replicate 200 98"

definition two_sentences :: pystr where
  "two_sentences = replicate 100 97 @ str ''. '' @ replicate 50 98 @ str ''! '' @ replicate 200 99"

definition long_token :: pystr where
  "long_token = replicate 400 97"

section \<open>Facts about slicing and stripping\<close>

lemma len_nonneg [simp]: "0 \<le> len xs" by (simp add: len_def)

lemma slice_to_from: "slice_to xs k @ slice_from xs k = xs"
  by (simp add: slice_to_def slice_from_def slice_def Let_def len_def)

lemma slice_to_pos: "0 \<le> k \<Longrightarrow> slice_to xs k = take (nat k) xs"
  by (simp add: slice_to_def slice_def Let_def len_def min_def)

lemma slice_from_pos: "0 \<le> k \<Longrightarrow> slice_from xs k = drop (nat k) xs"
  by (simp add: slice_from_def slice_def Let_def len_def min_def)

lemma take2_drop:
  assumes "Suc m < length xs"
  shows "take 2 (drop m xs) = [xs ! m, xs ! Suc m]"
proof -
  from assms have "drop m xs = xs ! m # drop (Suc m) xs"
    by (simp add: Cons_nth_drop_Suc)
  moreover from assms have "drop (Suc m) xs = xs ! Suc m # drop (Suc (Suc m)) xs"
    by (simp add: Cons_nth_drop_Suc)
  ultimately show ?thesis by (simp add: numeral_2_eq_2)
qed

lemma slice_pair:
  assumes "int (Suc j) < len xs"
  shows "slice xs (int (Suc j) - 1) (int (Suc j) + 1) = [xs ! j, xs ! Suc j]"
proof -
  from assms have l: "Suc j < length xs" by (simp add: len_def)
  then have "slice xs (int (Suc j) - 1) (int (Suc j) + 1) = take 2 (drop j xs)"
    by (simp add: slice_def Let_def len_def min_def)
  with l show ?thesis by (simp add: take2_drop)
qed

lemma getitem_in_range:
  "0 \<le> i \<Longrightarrow> i < len xs \<Longrightarrow> getitem xs i = Inr [xs ! nat i]"
  by (simp add: getitem_def Let_def)

lemma filter_dropWhile_neg:
  "filter (\<lambda>c. \<not> P c) (dropWhile P xs) = filter (\<lambda>c. \<not> P c) xs"
  by (induction xs) auto

lemma filter_strip: "filter (\<lambda>c. \<not> isspace c) (strip s) = filter (\<lambda>c. \<not> isspace c) s"
proof -
  have "filter (\<lambda>c. \<not> isspace c) (strip s)
      = rev (filter (\<lambda>c. \<not> isspace c) (dropWhile isspace (rev (dropWhile isspace s))))"
    by (simp add: strip_def rev_filter)
  also have "\<dots> = rev (filter (\<lambda>c. \<not> isspace c) (rev (dropWhile isspace s)))"
    by (simp only: filter_dropWhile_neg)
  also have "\<dots> = filter (\<lambda>c. \<not> isspace c) (dropWhile isspace s)"
    by (simp add: rev_filter)
  finally show ?thesis by (simp only: filter_dropWhile_neg)
qed

lemma length_strip: "length (strip s) \<le> length s"
proof -
  have "length (strip s) \<le> length (dropWhile isspace s)"
    unfolding strip_def using length_dropWhile_le [of isspace "rev (dropWhile isspace s)"] by simp
  also have "\<dots> \<le> length s" by (rule length_dropWhile_le)
  finally show ?thesis .
qed

lemma dropWhile_all: "(\<forall>x\<in>set (dropWhile P xs). P x) \<longleftrightarrow> (\<forall>x\<in>set xs. P x)"
  by (induction xs) auto

lemma strip_all_space: "strip s = [] \<longleftrightarrow> (\<forall>c\<in>set s. isspace c)"
  by (simp add: strip_def dropWhile_eq_Nil_conv dropWhile_all)

lemma strip_prefix: "strip s @ rev (takeWhile isspace (rev (dropWhile isspace s))) = dropWhile isspace s"
proof -
  have "rev (takeWhile isspace (rev (dropWhile isspace s)) @ dropWhile isspace (rev (dropWhile isspace s)))
        = dropWhile isspace s"
    by (simp only: takeWhile_dropWhile_id rev_rev_ident)
  then show ?thesis by (simp only: strip_def rev_append)
qed

lemma strip_hd:
  assumes "strip s \<noteq> []"
  shows "\<not> isspace (hd (strip s))"
proof -
  have ne: "dropWhile isspace s \<noteq> []"
  proof
    assume "dropWhile isspace s = []"
    then have "strip s = []" by (simp only: strip_def rev.simps dropWhile.simps)
    with assms show False by simp
  qed
  have "hd (strip s) = hd (strip s @ rev (takeWhile isspace (rev (dropWhile isspace s))))"
    using assms by simp
  also have "\<dots> = hd (dropWhile isspace s)" by (simp only: strip_prefix)
  finally show ?thesis using hd_dropWhile [OF ne] by simp
qed

lemma strip_last:
  assumes "strip s \<noteq> []"
  shows "\<not> isspace (last (strip s))"
proof -
  from assms have ne: "dropWhile isspace (rev (dropWhile isspace s)) \<noteq> []"
    by (simp add: strip_def)
  have "last (strip s) = hd (dropWhile isspace (rev (dropWhile isspace s)))"
    using ne by (simp add: strip_def last_rev)
  then show ?thesis using hd_dropWhile [OF ne] by simp
qed

lemma strip_fixed:
  assumes "s \<noteq> []" "\<not> isspace (hd s)" "\<not> isspace (last s)"
  shows "strip s = s"
proof -
  from assms(1,2) have a: "dropWhile isspace s = s" by (cases s) auto
  from assms(1,3) have "dropWhile isspace (rev s) = rev s"
    by (cases "rev s") (auto simp: hd_rev [symmetric])
  with a show ?thesis by (simp add: strip_def)
qed

lemma strip_idem: "strip (strip s) = strip s"
proof (cases "strip s = []")
  case True
  then have "strip [] = []" by (simp add: strip_def)
  with True show ?thesis by simp
next
  case False
  then show ?thesis by (simp add: strip_fixed strip_hd strip_last)
qed

section \<open>The backward scan\<close>

lemma scan_back_Suc_ending:
  "ending_at text (int (Suc j)) \<Longrightarrow> scan_back text M (Suc j) b = Inr (int (Suc j))"
  by (simp add: ending_at_def Let_def)

lemma scan_back_Suc_best:
  "\<not> ending_at text (int (Suc j)) \<Longrightarrow> b \<noteq> 0 \<Longrightarrow>
   scan_back text M (Suc j) b = scan_back text M j b"
  by (simp add: ending_at_def Let_def)

lemma scan_back_Suc_look:
  "\<not> ending_at text (int (Suc j)) \<Longrightarrow> int (Suc j) < len text \<Longrightarrow>
   scan_back text M (Suc j) 0 =
     scan_back text M j (if space_at text (int (Suc j)) then int (Suc j) else 0)"
  by (simp add: ending_at_def space_at_def Let_def getitem_in_range)

lemma scan_back_0:
  "scan_back text M 0 b = Inr (if b > 0 then b else min (M - 20) (len text))"
  by simp

declare scan_back.simps [simp del]

declare of_nat_Suc [simp del]

lemma scan_none_best:
  "\<forall>m. 1 \<le> m \<and> m \<le> int j \<longrightarrow> \<not> ending_at text m \<Longrightarrow> 0 < b \<Longrightarrow>
   scan_back text M j b = Inr b"
proof (induction j)
  case 0
  then show ?case by (simp add: scan_back_0)
next
  case (Suc j)
  from Suc.prems have "\<not> ending_at text (int (Suc j))" by simp
  with Suc.prems have "scan_back text M (Suc j) b = scan_back text M j b"
    by (simp add: scan_back_Suc_best)
  moreover from Suc.prems have "\<forall>m. 1 \<le> m \<and> m \<le> int j \<longrightarrow> \<not> ending_at text m"
    by (simp add: of_nat_Suc)
  ultimately show ?case using Suc by simp
qed

lemma scan_found:
  assumes "int j < len text" "1 \<le> i" "i \<le> int j" "ending_at text i"
  shows "\<exists>k. scan_back text M j b = Inr k \<and> ending_at text k \<and> i \<le> k \<and> k \<le> int j \<and>
             (\<forall>m. k < m \<and> m \<le> int j \<longrightarrow> \<not> ending_at text m)"
  using assms
proof (induction j arbitrary: b)
  case 0
  then show ?case by simp
next
  case (Suc j)
  show ?case
  proof (cases "ending_at text (int (Suc j))")
    case True
    with Suc.prems show ?thesis by (auto simp: scan_back_Suc_ending)
  next
    case False
    with Suc.prems have i: "i \<le> int j" by (cases "i = int (Suc j)") (auto simp: of_nat_Suc)
    from Suc.prems have l: "int j < len text" by simp
    have "\<exists>b'. scan_back text M (Suc j) b = scan_back text M j b'"
    proof (cases "b = 0")
      case True
      with False Suc.prems show ?thesis by (auto simp: scan_back_Suc_look)
    next
      case b: False
      with False show ?thesis by (auto simp: scan_back_Suc_best)
    qed
    then obtain b' where b': "scan_back text M (Suc j) b = scan_back text M j b'" ..
    from Suc.IH [OF l Suc.prems(2) i Suc.prems(4), of b'] obtain k where
      k: "scan_back text M j b' = Inr k" "ending_at text k" "i \<le> k" "k \<le> int j"
         "\<forall>m. k < m \<and> m \<le> int j \<longrightarrow> \<not> ending_at text m" by blast
    have "\<forall>m. k < m \<and> m \<le> int (Suc j) \<longrightarrow> \<not> ending_at text m"
    proof (intro allI impI)
      fix m assume m: "k < m \<and> m \<le> int (Suc j)"
      show "\<not> ending_at text m"
      proof (cases "m = int (Suc j)")
        case True with False show ?thesis by simp
      next
        case False with m k(5) show ?thesis by auto
      qed
    qed
    with k b' show ?thesis by auto
  qed
qed

lemma scan_none_space:
  assumes "int j < len text" "\<forall>m. 1 \<le> m \<and> m \<le> int j \<longrightarrow> \<not> ending_at text m"
      "1 \<le> i" "i \<le> int j" "space_at text i"
  shows "\<exists>k. scan_back text M j 0 = Inr k \<and> space_at text k \<and> i \<le> k \<and> k \<le> int j \<and>
             (\<forall>m. k < m \<and> m \<le> int j \<longrightarrow> \<not> space_at text m)"
  using assms
proof (induction j)
  case 0
  then show ?case by simp
next
  case (Suc j)
  from Suc.prems have ne: "\<not> ending_at text (int (Suc j))" by simp
  from Suc.prems have none: "\<forall>m. 1 \<le> m \<and> m \<le> int j \<longrightarrow> \<not> ending_at text m" by simp
  show ?case
  proof (cases "space_at text (int (Suc j))")
    case True
    with ne Suc.prems have "scan_back text M (Suc j) 0 = scan_back text M j (int (Suc j))"
      by (simp add: scan_back_Suc_look)
    also have "\<dots> = Inr (int (Suc j))"
      using none by (intro scan_none_best) auto
    finally show ?thesis using True Suc.prems by auto
  next
    case False
    with Suc.prems have i: "i \<le> int j" by (cases "i = int (Suc j)") auto
    from Suc.prems have l: "int j < len text" by simp
    from False ne Suc.prems have "scan_back text M (Suc j) 0 = scan_back text M j 0"
      by (simp add: scan_back_Suc_look)
    moreover from Suc.IH [OF l none Suc.prems(3) i Suc.prems(5)] obtain k where
      k: "scan_back text M j 0 = Inr k" "space_at text k" "i \<le> k" "k \<le> int j"
         "\<forall>m. k < m \<and> m \<le> int j \<longrightarrow> \<not> space_at text m" by blast
    moreover have "\<forall>m. k < m \<and> m \<le> int (Suc j) \<longrightarrow> \<not> space_at text m"
    proof (intro allI impI)
      fix m assume m: "k < m \<and> m \<le> int (Suc j)"
      show "\<not> space_at text m"
      proof (cases "m = int (Suc j)")
        case True with False show ?thesis by simp
      next
        case False with m k(5) show ?thesis by auto
      qed
    qed
    ultimately show ?thesis by auto
  qed
qed

lemma scan_none_nospace:
  assumes "int j < len text" "\<forall>m. 1 \<le> m \<and> m \<le> int j \<longrightarrow> \<not> ending_at text m"
      "\<forall>m. 1 \<le> m \<and> m \<le> int j \<longrightarrow> \<not> space_at text m"
  shows "scan_back text M j 0 = Inr (min (M - 20) (len text))"
  using assms
proof (induction j)
  case 0
  then show ?case by (simp add: scan_back_0)
next
  case (Suc j)
  from Suc.prems have "\<not> ending_at text (int (Suc j))" "\<not> space_at text (int (Suc j))"
    by simp_all
  with Suc.prems have "scan_back text M (Suc j) 0 = scan_back text M j 0"
    by (simp add: scan_back_Suc_look)
  moreover from Suc.prems have "int j < len text"
    "\<forall>m. 1 \<le> m \<and> m \<le> int j \<longrightarrow> \<not> ending_at text m"
    "\<forall>m. 1 \<le> m \<and> m \<le> int j \<longrightarrow> \<not> space_at text m"
    by (simp_all add: of_nat_Suc)
  ultimately show ?case using Suc.IH by simp
qed

lemma scan_range:
  assumes "int j < len text" "0 \<le> b"
  shows "\<exists>k. scan_back text M j b = Inr k \<and>
           (0 < b \<and> k = b \<or> 1 \<le> k \<and> k \<le> int j \<or> k = min (M - 20) (len text))"
  using assms
proof (induction j arbitrary: b)
  case 0
  then show ?case by (auto simp: scan_back_0)
next
  case (Suc j)
  from Suc.prems have l: "int j < len text" by simp
  show ?case
  proof (cases "ending_at text (int (Suc j))")
    case True
    then show ?thesis by (simp add: scan_back_Suc_ending)
  next
    case False
    show ?thesis
    proof (cases "b = 0")
      case True
      let ?b' = "if space_at text (int (Suc j)) then int (Suc j) else 0"
      from True False Suc.prems have "scan_back text M (Suc j) b = scan_back text M j ?b'"
        by (simp add: scan_back_Suc_look)
      moreover have "0 \<le> ?b'" by simp
      from Suc.IH [OF l this] obtain k where
        "scan_back text M j ?b' = Inr k"
        "0 < ?b' \<and> k = ?b' \<or> 1 \<le> k \<and> k \<le> int j \<or> k = min (M - 20) (len text)"
        by blast
      ultimately show ?thesis by (auto simp: of_nat_Suc split: if_splits)
    next
      case b: False
      with False have "scan_back text M (Suc j) b = scan_back text M j b"
        by (simp add: scan_back_Suc_best)
      moreover from Suc.IH [OF l Suc.prems(2)] obtain k where
        "scan_back text M j b = Inr k"
        "0 < b \<and> k = b \<or> 1 \<le> k \<and> k \<le> int j \<or> k = min (M - 20) (len text)"
        by blast
      ultimately show ?thesis by (auto simp: of_nat_Suc)
    qed
  qed
qed

lemma fsb_long:
  assumes "max_length < len text"
  shows "find_sentence_boundary text max_length = scan_back text max_length (nat (max_length - 20)) 0"
  using assms by (simp add: find_sentence_boundary_def Let_def min_def)

lemma fsb_total: "\<exists>k. find_sentence_boundary text max_length = Inr k"
proof (cases "len text \<le> max_length")
  case True
  then show ?thesis by (simp add: find_sentence_boundary_def)
next
  case False
  show ?thesis
  proof (cases "nat (max_length - 20)")
    case 0
    with False show ?thesis by (simp add: fsb_long scan_back_0)
  next
    case (Suc j)
    with False have "int (nat (max_length - 20)) < len text" by auto
    from scan_range [OF this, of 0 max_length] False show ?thesis
      by (auto simp: fsb_long)
  qed
qed

lemma fsb_range:
  assumes "max_length < len text" "21 \<le> max_length"
  shows "\<exists>k. find_sentence_boundary text max_length = Inr k \<and> 1 \<le> k \<and> k \<le> max_length - 20"
proof -
  from assms have "int (nat (max_length - 20)) < len text" by auto
  from scan_range [OF this, of 0 max_length] assms show ?thesis
    by (auto simp: fsb_long)
qed

section \<open>The loop and the verification pass\<close>

lemma len_strip_le: "len (strip s) \<le> len s"
  using length_strip [of s] by (simp add: len_def)

lemma split_shrinks:
  assumes "TWEET_LIMIT < len r" "find_sentence_boundary r TWEET_LIMIT = Inr k"
  shows "1 \<le> k \<and> k \<le> TWEET_LIMIT - 20 \<and> k < len r \<and>
         length (clean_and_trim (slice_from r k)) < length r"
proof -
  from fsb_range [of TWEET_LIMIT r] assms
  have k: "1 \<le> k" "k \<le> TWEET_LIMIT - 20" by (auto simp: TWEET_LIMIT_def)
  with assms(1) have lt: "k < len r" by simp
  from k have "slice_from r k = drop (nat k) r" by (simp add: slice_from_pos)
  then have "length (slice_from r k) < length r"
    using k lt by (simp add: len_def)
  with length_strip [of "slice_from r k"] have "length (clean_and_trim (slice_from r k)) < length r"
    by (simp add: clean_and_trim_def)
  with k lt show ?thesis by simp
qed

text \<open>
  The loop \<open>while remaining:\<close> of \<open>_split_into_tweets\<close>, with the list \<open>tweets\<close> built so
  far. It stops when \<open>remaining\<close> is empty, before or after trimming, and when the trimmed
  text fits in \<open>TWEET_LIMIT\<close>, which appends it. Otherwise it asks
  \<open>find_sentence_boundary\<close> for \<open>split_index\<close> (replaced by
  \<open>min(TWEET_LIMIT - 20, len(remaining))\<close> when it is \<open>0\<close>), appends the trimmed
  \<open>remaining[:split_index]\<close> and goes on with the trimmed \<open>remaining[split_index:]\<close>. An
  exception of the boundary search would leave the loop. The loop ends because the
  remaining text gets shorter at every round: \<open>split_shrinks\<close>.
\<close>

function split_loop :: "pystr list \<Rightarrow> pystr \<Rightarrow> py_error + pystr list" where
  "split_loop tweets remaining =
     (if remaining = [] then Inr tweets
      else let remaining = clean_and_trim remaining in
        if remaining = [] then Inr tweets
        else if len remaining \<le> TWEET_LIMIT then Inr (tweets @ [remaining])
        else (case find_sentence_boundary remaining TWEET_LIMIT of
                Inl e \<Rightarrow> Inl e
              | Inr k \<Rightarrow>
                  let split_index = (if k = 0 then min (TWEET_LIMIT - 20) (len remaining) else k)
                  in split_loop (tweets @ [clean_and_trim (slice_to remaining split_index)])
                       (clean_and_trim (slice_from remaining split_index))))"
  by pat_completeness auto
termination
proof (relation "measure (\<lambda>(tweets, remaining). length remaining)")
  show "wf (measure (\<lambda>(tweets, remaining). length remaining))" by simp
next
  fix tweets :: "pystr list" and remaining x :: pystr and b xa :: int
  assume x: "x = clean_and_trim remaining"
    and long: "\<not> len x \<le> TWEET_LIMIT"
    and b: "find_sentence_boundary x TWEET_LIMIT = Inr b"
    and xa: "xa = (if b = 0 then min (TWEET_LIMIT - 20) (len x) else b)"
  from long have "TWEET_LIMIT < len x" by simp
  from split_shrinks [OF this b] xa
  have "xa = b" "length (clean_and_trim (slice_from x b)) < length x" by auto
  moreover from x have "length x \<le> length remaining"
    by (simp add: clean_and_trim_def length_strip)
  ultimately show "((tweets @ [clean_and_trim (slice_to x xa)], clean_and_trim (slice_from x xa)),
                    tweets, remaining) \<in> measure (\<lambda>(tweets, remaining). length remaining)"
    by simp
qed

declare split_loop.simps [simp del]

lemma drop_insert_at:
  assumes "i < length tweets"
  shows "drop (Suc i) (insert_at (Suc i) y (tweets[i := x])) = y # drop (Suc i) tweets"
proof -
  from assms have "length (take (Suc i) (tweets[i := x])) = Suc i" by simp
  then have "drop (Suc i) (take (Suc i) (tweets[i := x]) @ y # drop (Suc i) (tweets[i := x]))
           = y # drop (Suc i) (tweets[i := x])"
    by (simp only: append_eq_conv_conj drop_append length_take) simp
  then show ?thesis by (simp add: insert_at_def)
qed

lemma second_part_shorter:
  assumes "TWEET_LIMIT < len tweet"
  shows "length (clean_and_trim (slice_from tweet (TWEET_LIMIT - 20))) < length tweet"
proof -
  have "slice_from tweet (TWEET_LIMIT - 20) = drop 240 tweet"
    by (simp add: slice_from_pos TWEET_LIMIT_def)
  with assms have "length (slice_from tweet (TWEET_LIMIT - 20)) < length tweet"
    by (simp add: len_def TWEET_LIMIT_def)
  with length_strip [of "slice_from tweet (TWEET_LIMIT - 20)"] show ?thesis
    by (simp add: clean_and_trim_def)
qed

text \<open>
  The verification pass after the loop, \<open>for i, tweet in enumerate(tweets)\<close>. The list
  iterator reads \<open>tweets[i]\<close> afresh at every step and stops when \<open>i\<close> reaches the
  current length, so a part inserted at \<open>i + 1\<close> is the next one visited.
\<close>

function repair :: "nat \<Rightarrow> pystr list \<Rightarrow> pystr list" where
  "repair i tweets =
     (if i < length tweets then
        let tweet = tweets ! i in
        if len tweet > TWEET_LIMIT then
          let first_part = clean_and_trim (slice_to tweet (TWEET_LIMIT - 20));
              second_part = clean_and_trim (slice_from tweet (TWEET_LIMIT - 20))
          in repair (i + 1) (insert_at (i + 1) second_part (tweets[i := first_part]))
        else repair (i + 1) tweets
      else tweets)"
  by pat_completeness auto
termination
proof (relation "measure (\<lambda>(i, tweets). sum_list (map (\<lambda>t. Suc (length t)) (drop i tweets)))")
  show "wf (measure (\<lambda>(i, tweets). sum_list (map (\<lambda>t. Suc (length t)) (drop i tweets))))"
    by simp
next
  fix i :: nat and tweets :: "pystr list" and x xa xb :: pystr
  assume i: "i < length tweets" and x: "x = tweets ! i" and long: "TWEET_LIMIT < len x"
    and xb: "xb = clean_and_trim (slice_from x (TWEET_LIMIT - 20))"
  from i have "drop i tweets = tweets ! i # drop (Suc i) tweets"
    by (simp add: Cons_nth_drop_Suc)
  moreover from second_part_shorter [OF long] xb have "length xb < length x" by simp
  ultimately show "((i + 1, insert_at (i + 1) xb (tweets[i := xa])), i, tweets)
      \<in> measure (\<lambda>(i, tweets). sum_list (map (\<lambda>t. Suc (length t)) (drop i tweets)))"
    using i x by (simp add: drop_insert_at)
next
  fix i :: nat and tweets :: "pystr list" and x :: pystr
  assume i: "i < length tweets"
  then have "drop i tweets = tweets ! i # drop (Suc i) tweets"
    by (simp add: Cons_nth_drop_Suc)
  then show "((i + 1, tweets), i, tweets)
      \<in> measure (\<lambda>(i, tweets). sum_list (map (\<lambda>t. Suc (length t)) (drop i tweets)))"
    by simp
qed

declare repair.simps [simp del]

text \<open>
  \<open>_split_into_tweets(self, content)\<close>: the loop, then the verification pass. The calls
  to the logger do not change the result.
\<close>

definition split_into_tweets :: "pystr \<Rightarrow> py_error + pystr list" where
  "split_into_tweets content =
     (case split_loop [] content of
        Inl e \<Rightarrow> Inl e
      | Inr tweets \<Rightarrow> Inr (repair 0 tweets))"

section \<open>What the loop computes\<close>

lemma repair_noop:
  assumes "\<forall>t\<in>set tweets. len t \<le> TWEET_LIMIT"
  shows "repair i tweets = tweets"
  using assms
proof (induction "length tweets - i" arbitrary: i)
  case 0
  then show ?case by (subst repair.simps) simp
next
  case (Suc n)
  then have i: "i < length tweets" by simp
  with Suc.prems have "\<not> len (tweets ! i) > TWEET_LIMIT" by (auto simp: not_less)
  with i have "repair i tweets = repair (i + 1) tweets"
    by (subst repair.simps) (simp add: Let_def)
  moreover from Suc.hyps(2) have "n = length tweets - (i + 1)" by simp
  ultimately show ?case using Suc.hyps(1) Suc.prems by simp
qed

lemma strip_Nil [simp]: "strip [] = []"
  by (simp add: strip_def)

lemma clean_and_trim_ne: "clean_and_trim r \<noteq> [] \<Longrightarrow> r \<noteq> []"
  by (auto simp: clean_and_trim_def)

lemma split_loop_step:
  assumes "TWEET_LIMIT < len (clean_and_trim remaining)"
      "find_sentence_boundary (clean_and_trim remaining) TWEET_LIMIT = Inr k"
  shows "split_loop tweets remaining =
         split_loop (tweets @ [clean_and_trim (slice_to (clean_and_trim remaining) k)])
           (clean_and_trim (slice_from (clean_and_trim remaining) k))"
proof -
  from split_shrinks [OF assms] have k: "k \<noteq> 0" by simp
  from assms(1) have ne: "clean_and_trim remaining \<noteq> []"
    by (auto simp: len_def TWEET_LIMIT_def)
  then have "remaining \<noteq> []" by (rule clean_and_trim_ne)
  with ne assms k show ?thesis
    by (subst split_loop.simps) (simp add: Let_def)
qed

lemma split_loop_short:
  assumes "clean_and_trim remaining \<noteq> []" "len (clean_and_trim remaining) \<le> TWEET_LIMIT"
  shows "split_loop tweets remaining = Inr (tweets @ [clean_and_trim remaining])"
proof -
  from assms(1) have "remaining \<noteq> []" by (rule clean_and_trim_ne)
  with assms show ?thesis by (subst split_loop.simps) (simp add: Let_def)
qed

lemma split_loop_blank:
  assumes "clean_and_trim remaining = []"
  shows "split_loop tweets remaining = Inr tweets"
  using assms by (subst split_loop.simps) (simp add: Let_def)

lemma split_loop_inv:
  "\<exists>ts. split_loop tweets remaining = Inr (tweets @ ts) \<and>
        (\<forall>t\<in>set ts. len t \<le> TWEET_LIMIT) \<and>
        filter (\<lambda>c. \<not> isspace c) (concat ts) = filter (\<lambda>c. \<not> isspace c) remaining"
proof (induction tweets remaining rule: split_loop.induct)
  case (1 tweets remaining)
  let ?r = "clean_and_trim remaining"
  have fr: "filter (\<lambda>c. \<not> isspace c) ?r = filter (\<lambda>c. \<not> isspace c) remaining"
    by (simp add: clean_and_trim_def filter_strip)
  show ?case
  proof (cases "?r = []")
    case True
    with fr show ?thesis by (simp add: split_loop_blank)
  next
    case ne: False
    then have ne': "remaining \<noteq> []" by (rule clean_and_trim_ne)
    show ?thesis
    proof (cases "len ?r \<le> TWEET_LIMIT")
      case True
      with ne fr show ?thesis by (simp add: split_loop_short)
    next
      case False
      then have long: "TWEET_LIMIT < len ?r" by simp
      from fsb_total obtain k where k: "find_sentence_boundary ?r TWEET_LIMIT = Inr k" by blast
      from split_shrinks [OF long k] have kr: "1 \<le> k" "k \<le> TWEET_LIMIT - 20" by simp_all
      let ?a = "clean_and_trim (slice_to ?r k)"
      let ?b = "clean_and_trim (slice_from ?r k)"
      from kr have "(if k = 0 then min (TWEET_LIMIT - 20) (len ?r) else k) = k" by simp
      from "1.IH" [OF ne' refl ne False k this [symmetric]]
      obtain ts where ts: "split_loop (tweets @ [?a]) ?b = Inr ((tweets @ [?a]) @ ts)"
        "\<forall>t\<in>set ts. len t \<le> TWEET_LIMIT"
        "filter (\<lambda>c. \<not> isspace c) (concat ts) = filter (\<lambda>c. \<not> isspace c) ?b" by blast
      from kr have "length (slice_to ?r k) \<le> nat k" by (simp add: slice_to_pos)
      with length_strip [of "slice_to ?r k"] kr have la: "len ?a \<le> TWEET_LIMIT"
        by (simp add: clean_and_trim_def len_def)
      have "filter (\<lambda>c. \<not> isspace c) (?a @ ?b)
          = filter (\<lambda>c. \<not> isspace c) (slice_to ?r k @ slice_from ?r k)"
        by (simp add: clean_and_trim_def filter_strip)
      then have "filter (\<lambda>c. \<not> isspace c) (?a @ ?b) = filter (\<lambda>c. \<not> isspace c) remaining"
        using fr by (simp only: slice_to_from)
      with ts la split_loop_step [OF long k, of tweets] show ?thesis
        by (intro exI [of _ "?a # ts"]) simp
    qed
  qed
qed

lemma segmenter_summary:
  "\<exists>tweets. split_loop [] content = Inr tweets \<and> split_into_tweets content = Inr tweets \<and>
     repair 0 tweets = tweets \<and> (\<forall>t\<in>set tweets. len t \<le> TWEET_LIMIT) \<and>
     filter (\<lambda>c. \<not> isspace c) (concat tweets) = filter (\<lambda>c. \<not> isspace c) content"
proof -
  from split_loop_inv [of "[]" content] obtain ts where
    ts: "split_loop [] content = Inr ts" "\<forall>t\<in>set ts. len t \<le> TWEET_LIMIT"
      "filter (\<lambda>c. \<not> isspace c) (concat ts) = filter (\<lambda>c. \<not> isspace c) content"
    by auto
  from ts(2) have "repair 0 ts = ts" by (rule repair_noop)
  with ts show ?thesis by (simp add: split_into_tweets_def)
qed

lemma split_loop_count:
  "\<exists>ts. split_loop tweets remaining = Inr (tweets @ ts) \<and> length ts \<le> length remaining"
proof (induction tweets remaining rule: split_loop.induct)
  case (1 tweets remaining)
  let ?r = "clean_and_trim remaining"
  have le: "length ?r \<le> length remaining" by (simp add: clean_and_trim_def length_strip)
  show ?case
  proof (cases "?r = []")
    case True
    then show ?thesis by (simp add: split_loop_blank)
  next
    case ne: False
    then have ne': "remaining \<noteq> []" by (rule clean_and_trim_ne)
    show ?thesis
    proof (cases "len ?r \<le> TWEET_LIMIT")
      case True
      from ne' have "1 \<le> length remaining" by (cases remaining) simp_all
      with True ne show ?thesis by (simp add: split_loop_short)
    next
      case False
      then have long: "TWEET_LIMIT < len ?r" by simp
      from fsb_total obtain k where k: "find_sentence_boundary ?r TWEET_LIMIT = Inr k" by blast
      from split_shrinks [OF long k] have kr: "1 \<le> k"
        and sh: "length (clean_and_trim (slice_from ?r k)) < length ?r" by simp_all
      let ?a = "clean_and_trim (slice_to ?r k)"
      let ?b = "clean_and_trim (slice_from ?r k)"
      from kr have "(if k = 0 then min (TWEET_LIMIT - 20) (len ?r) else k) = k" by simp
      from "1.IH" [OF ne' refl ne False k this [symmetric]]
      obtain ts where ts: "split_loop (tweets @ [?a]) ?b = Inr ((tweets @ [?a]) @ ts)"
        "length ts \<le> length ?b" by blast
      from ts(2) sh le have "length (?a # ts) \<le> length remaining" by simp
      with ts(1) split_loop_step [OF long k, of tweets] show ?thesis
        by (intro exI [of _ "?a # ts"]) simp
    qed
  qed
qed

lemma segmenter_count:
  "\<exists>tweets. split_into_tweets content = Inr tweets \<and> length tweets \<le> length content"
proof -
  from segmenter_summary [of content] obtain ts where
    ts: "split_loop [] content = Inr ts" "split_into_tweets content = Inr ts" by blast
  from split_loop_count [of "[]" content] ts(1) have "length ts \<le> length content" by auto
  with ts(2) show ?thesis by blast
qed

lemma isspace_space [simp]: "isspace 32"
  by (simp add: isspace_def)

lemma str_space [simp]: "str '' '' = [32]"
  by (simp add: str_def)

lemma filter_join_space:
  "filter (\<lambda>c. \<not> isspace c) (join (str '' '') ts) = filter (\<lambda>c. \<not> isspace c) (concat ts)"
  by (induction "str '' ''" ts rule: join.induct) simp_all

section \<open>What the boundary search returns\<close>

lemma sentence_endings_eq:
  "set sentence_endings = {[46, 32], [33, 32], [63, 32], [46, 10], [33, 10], [63, 10]}"
  by (simp add: sentence_endings_def str_def)

lemma ending_at_iff:
  assumes "1 \<le> i" "i < len text"
  shows "ending_at text i \<longleftrightarrow>
    text ! nat (i - 1) \<in> {46, 33, 63} \<and> text ! nat i \<in> {32, 10}"
proof -
  define j where "j = nat (i - 1)"
  with assms(1) have j: "i = int (Suc j)" by (simp add: of_nat_Suc)
  with assms have "slice text (i - 1) (i + 1) = [text ! j, text ! Suc j]"
    by (simp only: slice_pair)
  moreover from j have "nat (i - 1) = j" "nat i = Suc j" by (simp_all add: of_nat_Suc)
  ultimately show ?thesis
    by (auto simp: ending_at_def sentence_endings_eq)
qed

lemma space_at_iff:
  assumes "0 \<le> i" "i < len text"
  shows "space_at text i \<longleftrightarrow> text ! nat i = 32"
  using assms by (simp add: space_at_def getitem_in_range)

lemma set_slice: "set (slice xs lo hi) \<subseteq> set xs"
proof -
  have "set (take n (drop m xs)) \<subseteq> set xs" for n m
    using set_take_subset [of n "drop m xs"] set_drop_subset [of m xs] by blast
  then show ?thesis by (simp add: slice_def Let_def)
qed

lemma ending_at_white:
  assumes "ending_at text i"
  shows "32 \<in> set text \<or> 10 \<in> set text"
proof -
  from assms obtain p w where "slice text (i - 1) (i + 1) = [p, w]" "w = 32 \<or> w = 10"
    by (auto simp: ending_at_def sentence_endings_eq)
  then have "w \<in> set (slice text (i - 1) (i + 1))" "w = 32 \<or> w = 10" by simp_all
  with set_slice [of "text" "i - 1" "i + 1"] show ?thesis by auto
qed

lemma ending_at_punct:
  assumes "ending_at text i"
  shows "46 \<in> set text \<or> 33 \<in> set text \<or> 63 \<in> set text"
proof -
  from assms obtain p w where "slice text (i - 1) (i + 1) = [p, w]" "p = 46 \<or> p = 33 \<or> p = 63"
    by (auto simp: ending_at_def sentence_endings_eq)
  then have "p \<in> set (slice text (i - 1) (i + 1))" "p = 46 \<or> p = 33 \<or> p = 63" by simp_all
  with set_slice [of "text" "i - 1" "i + 1"] show ?thesis by auto
qed

lemma space_at_mem:
  assumes "space_at text i"
  shows "32 \<in> set text"
proof -
  let ?j = "if i < 0 then len text + i else i"
  from assms have r: "0 \<le> ?j \<and> ?j < len text" and v: "text ! nat ?j = 32"
    by (auto simp: space_at_def getitem_def Let_def split: if_splits)
  from r have "nat ?j < length text" by (auto simp: len_def)
  with v show ?thesis by (metis nth_mem)
qed

lemma fsb_no_white:
  assumes "max_length < len text" "32 \<notin> set text" "10 \<notin> set text"
  shows "find_sentence_boundary text max_length = Inr (max_length - 20)"
proof (cases "nat (max_length - 20)")
  case 0
  with assms(1) show ?thesis by (simp add: fsb_long scan_back_0)
next
  case (Suc j)
  with assms(1) have "int (nat (max_length - 20)) < len text" by simp
  moreover from assms(2,3) have "\<forall>m. 1 \<le> m \<and> m \<le> int (nat (max_length - 20)) \<longrightarrow> \<not> ending_at text m"
    by (auto dest: ending_at_white)
  moreover from assms(2) have "\<forall>m. 1 \<le> m \<and> m \<le> int (nat (max_length - 20)) \<longrightarrow> \<not> space_at text m"
    by (auto dest: space_at_mem)
  ultimately have "scan_back text max_length (nat (max_length - 20)) 0 = Inr (min (max_length - 20) (len text))"
    by (rule scan_none_nospace)
  with assms(1) show ?thesis by (simp add: fsb_long)
qed

lemma fsb_last_ending:
  assumes "max_length < len text" "1 \<le> i" "i \<le> max_length - 20" "ending_at text i"
  shows "\<exists>k. find_sentence_boundary text max_length = Inr k \<and> ending_at text k \<and> i \<le> k \<and>
            k \<le> max_length - 20 \<and> (\<forall>m. k < m \<and> m \<le> max_length - 20 \<longrightarrow> \<not> ending_at text m)"
proof -
  from assms have j: "int (nat (max_length - 20)) = max_length - 20" by simp
  with assms have "int (nat (max_length - 20)) < len text" "i \<le> int (nat (max_length - 20))"
    by simp_all
  from scan_found [OF this(1) assms(2) this(2) assms(4), of max_length 0] j assms(1)
  show ?thesis by (simp add: fsb_long)
qed

lemma fsb_last_space:
  assumes "max_length < len text" "1 \<le> i" "i \<le> max_length - 20" "space_at text i"
      "\<forall>m. 1 \<le> m \<and> m \<le> max_length - 20 \<longrightarrow> \<not> ending_at text m"
  shows "\<exists>k. find_sentence_boundary text max_length = Inr k \<and> space_at text k \<and> i \<le> k \<and>
            k \<le> max_length - 20 \<and> (\<forall>m. k < m \<and> m \<le> max_length - 20 \<longrightarrow> \<not> space_at text m)"
proof -
  from assms have j: "int (nat (max_length - 20)) = max_length - 20" by simp
  with assms have a: "int (nat (max_length - 20)) < len text" "i \<le> int (nat (max_length - 20))"
    "\<forall>m. 1 \<le> m \<and> m \<le> int (nat (max_length - 20)) \<longrightarrow> \<not> ending_at text m"
    by simp_all
  from scan_none_space [OF a(1) a(3) assms(2) a(2) assms(4), of max_length] j assms(1)
  show ?thesis by (simp add: fsb_long)
qed

lemma fsb_hard_cut:
  assumes "max_length < len text"
      "\<forall>m. 1 \<le> m \<and> m \<le> max_length - 20 \<longrightarrow> \<not> ending_at text m \<and> \<not> space_at text m"
  shows "find_sentence_boundary text max_length = Inr (max_length - 20)"
proof (cases "nat (max_length - 20)")
  case 0
  with assms(1) show ?thesis by (simp add: fsb_long scan_back_0)
next
  case (Suc j)
  then have j: "int (nat (max_length - 20)) = max_length - 20" by simp
  with assms have "int (nat (max_length - 20)) < len text"
    "\<forall>m. 1 \<le> m \<and> m \<le> int (nat (max_length - 20)) \<longrightarrow> \<not> ending_at text m"
    "\<forall>m. 1 \<le> m \<and> m \<le> int (nat (max_length - 20)) \<longrightarrow> \<not> space_at text m"
    by simp_all
  then have "scan_back text max_length (nat (max_length - 20)) 0
           = Inr (min (max_length - 20) (len text))"
    by (rule scan_none_nospace)
  with assms(1) show ?thesis by (simp add: fsb_long)
qed

lemma stripped_no_leading_space:
  assumes "clean_and_trim text = text"
  shows "\<not> space_at text 0"
proof
  assume s: "space_at text 0"
  then have ne: "text \<noteq> []" by (auto simp: space_at_def getitem_def Let_def len_def)
  with s have "text ! 0 = 32" by (simp add: space_at_iff len_def)
  with ne have "isspace (hd text)" by (simp add: hd_conv_nth isspace_def)
  moreover from assms ne have "\<not> isspace (hd text)"
    using strip_hd [of "text"] by (simp add: clean_and_trim_def)
  ultimately show False by simp
qed

section \<open>The segmenter on concrete inputs\<close>

lemma split_hello:
  "split_into_tweets (str ''Hello world.'') = Inr [str ''Hello world.'']"
proof -
  have s: "clean_and_trim (str ''Hello world.'') = str ''Hello world.''"
    by (simp add: clean_and_trim_def strip_def str_def isspace_def)
  have "len (str ''Hello world.'') \<le> TWEET_LIMIT"
    by (simp add: len_def str_def TWEET_LIMIT_def)
  with s have "split_loop [] (str ''Hello world.'') = Inr [str ''Hello world.'']"
    using split_loop_short [of "str ''Hello world.''" "[]"] by (simp add: str_def)
  moreover have "repair 0 [str ''Hello world.''] = [str ''Hello world.'']"
    by (rule repair_noop) (simp add: len_def str_def TWEET_LIMIT_def)
  ultimately show ?thesis by (simp add: split_into_tweets_def)
qed

lemma split_long_token:
  "split_into_tweets long_token = Inr [replicate 240 97, replicate 160 97]"
proof -
  have st: "clean_and_trim long_token = long_token"
    unfolding clean_and_trim_def by (rule strip_fixed) (simp_all add: long_token_def isspace_def)
  have long: "TWEET_LIMIT < len long_token"
    by (simp add: long_token_def len_def TWEET_LIMIT_def)
  have "32 \<notin> set long_token" "10 \<notin> set long_token" by (simp_all add: long_token_def)
  with long have "find_sentence_boundary long_token TWEET_LIMIT = Inr (TWEET_LIMIT - 20)"
    by (rule fsb_no_white)
  then have cut: "find_sentence_boundary long_token TWEET_LIMIT = Inr 240"
    by (simp add: TWEET_LIMIT_def)
  have a: "slice_to long_token 240 = replicate 240 97"
    by (simp add: slice_to_pos long_token_def)
  have b: "slice_from long_token 240 = replicate 160 97"
    by (simp add: slice_from_pos long_token_def)
  have sa: "clean_and_trim (replicate 240 97) = replicate 240 97"
    unfolding clean_and_trim_def by (rule strip_fixed) (simp_all add: isspace_def)
  have sb: "clean_and_trim (replicate 160 97) = replicate 160 97"
    unfolding clean_and_trim_def by (rule strip_fixed) (simp_all add: isspace_def)
  from long cut have "split_loop [] long_token
      = split_loop ([] @ [clean_and_trim (slice_to (clean_and_trim long_token) 240)])
          (clean_and_trim (slice_from (clean_and_trim long_token) 240))"
    by (intro split_loop_step) (simp_all add: st)
  then have "split_loop [] long_token = split_loop [replicate 240 97] (replicate 160 97)"
    by (simp add: st a b sa sb)
  also have "\<dots> = Inr ([replicate 240 97] @ [clean_and_trim (replicate 160 97)])"
    by (rule split_loop_short) (simp_all add: sb, simp_all add: len_def TWEET_LIMIT_def)
  finally have loop: "split_loop [] long_token = Inr [replicate 240 97, replicate 160 97]"
    by (simp add: sb)
  have "repair 0 [replicate 240 97, replicate 160 (97::nat)] = [replicate 240 97, replicate 160 97]"
    by (rule repair_noop) (simp add: len_def TWEET_LIMIT_def)
  with loop show ?thesis by (simp add: split_into_tweets_def)
qed

lemma scenario_D_prefix:
  assumes "0 \<le> m" "m \<le> 240"
  shows "scenario_D ! nat m = 97"
proof -
  from assms have "nat m < 254" by simp
  then show ?thesis by (simp add: scenario_D_def nth_append)
qed

lemma scenario_D_len: "len scenario_D = 261"
  by (simp add: scenario_D_def len_def str_def)

lemma scenario_D_ending: "ending_at scenario_D 255"
  by (simp add: ending_at_iff scenario_D_len) (simp add: scenario_D_def str_def nth_append)

lemma scenario_D_scan:
  "\<forall>m. 1 \<le> m \<and> m \<le> TWEET_LIMIT - 20 \<longrightarrow> \<not> ending_at scenario_D m \<and> \<not> space_at scenario_D m"
proof (intro allI impI)
  fix m :: int
  assume "1 \<le> m \<and> m \<le> TWEET_LIMIT - 20"
  then have m: "1 \<le> m" "0 \<le> m" "m \<le> 240" "m < len scenario_D"
    by (simp_all add: TWEET_LIMIT_def scenario_D_len)
  from m(2,3) have "scenario_D ! nat m = 97" by (rule scenario_D_prefix)
  with m show "\<not> ending_at scenario_D m \<and> \<not> space_at scenario_D m"
    by (simp add: ending_at_iff space_at_iff)
qed

lemma scenario_D_stripped: "clean_and_trim scenario_D = scenario_D"
  unfolding clean_and_trim_def
  by (rule strip_fixed) (simp_all add: scenario_D_def str_def isspace_def)

lemma two_sentences_cut:
  assumes "find_sentence_boundary two_sentences TWEET_LIMIT = Inr k" "153 \<le> k"
    "k \<le> TWEET_LIMIT - 20" "ending_at two_sentences k"
  shows "k = 153"
proof (rule ccontr)
  assume "k \<noteq> 153"
  with assms(2,3) have r: "153 < k" "k \<le> 240" by (simp_all add: TWEET_LIMIT_def)
  then have "two_sentences ! nat k = 99"
    by (auto simp: two_sentences_def str_def nth_append nth_Cons')
  moreover from r assms(4) have "two_sentences ! nat k \<in> {32, 10}"
    by (simp add: ending_at_iff two_sentences_def len_def str_def)
  ultimately show False by simp
qed

section \<open>The claims\<close>

text \<open>
  C1. For every content string, every fragment returned by the segmenter has length at
  most the limit, the constant \<open>TWEET_LIMIT = 260\<close>; the segmenter returns such a
  sequence for every content, a single token longer than the limit included.
\<close>

theorem fragments_within_limit:
  "\<exists>tweets. split_into_tweets content = Inr tweets \<and> (\<forall>t\<in>set tweets. len t \<le> TWEET_LIMIT)"
  using segmenter_summary [of content] by blast

theorem fragments_within_limit_witness:
  "\<exists>tweets. split_into_tweets long_token = Inr tweets \<and>
     tweets = [replicate 240 97, replicate 160 97] \<and> (\<forall>t\<in>set tweets. len t \<le> TWEET_LIMIT)"
  using fragments_within_limit [of long_token] by (simp add: split_long_token)

text \<open>
  C2. Concatenating the returned fragments in order and ignoring white space gives
  exactly the non-white-space characters of the content, each once and in order.
\<close>

theorem fragments_preserve_text:
  "\<exists>tweets. split_into_tweets content = Inr tweets \<and>
     filter (\<lambda>c. \<not> isspace c) (concat tweets) = filter (\<lambda>c. \<not> isspace c) content"
  using segmenter_summary [of content] by blast

text \<open>
  C3, as the code has it. For a text of 261 characters with a sentence ending at position
  255 the cut is not that ending: the search only covers the positions \<open>1..240\<close>, so the
  cut is at most \<open>TWEET_LIMIT - 20 = 240\<close>, and it is exactly the hard cutoff 240 when no
  position of \<open>1..240\<close> has a sentence ending or a space.
\<close>

theorem scenario_D_cut:
  assumes "len text = 261" "ending_at text 255"
  shows "\<exists>k. find_sentence_boundary text TWEET_LIMIT = Inr k \<and> 1 \<le> k \<and> k \<le> TWEET_LIMIT - 20 \<and>
           k \<noteq> 255 \<and>
           ((\<forall>m. 1 \<le> m \<and> m \<le> TWEET_LIMIT - 20 \<longrightarrow> \<not> ending_at text m \<and> \<not> space_at text m)
              \<longrightarrow> k = TWEET_LIMIT - 20)"
proof -
  from assms(1) have long: "TWEET_LIMIT < len text" by (simp add: TWEET_LIMIT_def)
  from fsb_range [OF long] obtain k where
    k: "find_sentence_boundary text TWEET_LIMIT = Inr k" "1 \<le> k" "k \<le> TWEET_LIMIT - 20"
    by (auto simp: TWEET_LIMIT_def)
  from k(3) have "k \<noteq> 255" by (simp add: TWEET_LIMIT_def)
  moreover have "k = TWEET_LIMIT - 20"
    if "\<forall>m. 1 \<le> m \<and> m \<le> TWEET_LIMIT - 20 \<longrightarrow> \<not> ending_at text m \<and> \<not> space_at text m"
    using fsb_hard_cut [OF long that] k(1) by simp
  ultimately show ?thesis using k by blast
qed

theorem scenario_D_cut_witness:
  "len scenario_D = 261 \<and> ending_at scenario_D 255 \<and>
   (\<exists>k. find_sentence_boundary scenario_D TWEET_LIMIT = Inr k \<and> 1 \<le> k \<and> k \<noteq> 255 \<and>
      k = TWEET_LIMIT - 20)"
  using scenario_D_cut [OF scenario_D_len scenario_D_ending] scenario_D_len scenario_D_ending
    scenario_D_scan by blast

text \<open>
  C3 as stated fails: \<open>scenario_D\<close> has 261 characters and its only sentence ending at
  position 255, and the segmenter cuts it at the hard cutoff 240.
\<close>

theorem scenario_D_counterexample:
  "len scenario_D = 261 \<and> ending_at scenario_D 255 \<and>
   find_sentence_boundary scenario_D TWEET_LIMIT = Inr 240 \<and>
   split_into_tweets scenario_D = Inr [replicate 240 97, replicate 14 97 @ str ''. '' @ replicate 5 98]"
proof -
  let ?rest = "replicate 14 97 @ str ''. '' @ replicate 5 98"
  have long: "TWEET_LIMIT < len scenario_D" by (simp add: scenario_D_len TWEET_LIMIT_def)
  from fsb_hard_cut [OF long scenario_D_scan]
  have cut: "find_sentence_boundary scenario_D TWEET_LIMIT = Inr 240"
    by (simp add: TWEET_LIMIT_def)
  have a: "slice_to scenario_D 240 = replicate 240 97"
    by (simp add: slice_to_pos scenario_D_def)
  have b: "slice_from scenario_D 240 = ?rest"
    by (simp add: slice_from_pos scenario_D_def)
  have sa: "clean_and_trim (replicate 240 97) = replicate 240 97"
    unfolding clean_and_trim_def by (rule strip_fixed) (simp_all add: isspace_def)
  have sb: "clean_and_trim ?rest = ?rest"
    unfolding clean_and_trim_def by (rule strip_fixed) (simp_all add: str_def isspace_def)
  from long cut have "split_loop [] scenario_D
      = split_loop ([] @ [clean_and_trim (slice_to (clean_and_trim scenario_D) 240)])
          (clean_and_trim (slice_from (clean_and_trim scenario_D) 240))"
    by (intro split_loop_step) (simp_all add: scenario_D_stripped)
  then have "split_loop [] scenario_D = split_loop [replicate 240 97] ?rest"
    by (simp add: scenario_D_stripped a b sa sb)
  also have "\<dots> = Inr ([replicate 240 97] @ [clean_and_trim ?rest])"
    by (rule split_loop_short) (simp_all add: sb, simp_all add: len_def TWEET_LIMIT_def str_def)
  finally have loop: "split_loop [] scenario_D = Inr [replicate 240 97, ?rest]"
    by (simp add: sb)
  have "repair 0 [replicate 240 97, ?rest] = [replicate 240 97, ?rest]"
    by (rule repair_noop) (simp add: len_def TWEET_LIMIT_def str_def)
  with loop have "split_into_tweets scenario_D = Inr [replicate 240 97, ?rest]"
    by (simp add: split_into_tweets_def)
  with cut scenario_D_len scenario_D_ending show ?thesis by simp
qed

text \<open>
  C4, as the code has it. When the text is longer than the limit and some position in
  \<open>1..max_length - 20\<close> has a sentence ending, the cut is the largest such position. A
  sentence ending at \<open>k\<close> is one of the six two-character strings of \<open>sentence_endings\<close>
  in \<open>text[k-1:k+1]\<close>: a period, exclamation mark or question mark at \<open>k - 1\<close> that is
  followed, at \<open>k\<close>, by a space or a newline.
\<close>

theorem cut_at_last_sentence_ending:
  assumes "max_length < len text" "1 \<le> i" "i \<le> max_length - 20" "ending_at text i"
  shows "\<exists>k. find_sentence_boundary text max_length = Inr k \<and> i \<le> k \<and> k \<le> max_length - 20 \<and>
            ending_at text k \<and>
            getitem text (k - 1) \<in> {Inr (str ''.''), Inr (str ''!''), Inr (str ''?'')} \<and>
            getitem text k \<in> {Inr (str '' ''), Inr (str ''\<newline>'')} \<and>
            (\<forall>m. k < m \<and> m \<le> max_length - 20 \<longrightarrow> \<not> ending_at text m)"
proof -
  from fsb_last_ending [OF assms] obtain k where
    k: "find_sentence_boundary text max_length = Inr k" "ending_at text k" "i \<le> k"
       "k \<le> max_length - 20" "\<forall>m. k < m \<and> m \<le> max_length - 20 \<longrightarrow> \<not> ending_at text m"
    by blast
  from k(3,4) assms(1,2) have r: "1 \<le> k" "k < len text" by simp_all
  with k(2) have "text ! nat (k - 1) \<in> {46, 33, 63}" "text ! nat k \<in> {32, 10}"
    by (simp_all add: ending_at_iff)
  moreover from r have "getitem text (k - 1) = Inr [text ! nat (k - 1)]"
    "getitem text k = Inr [text ! nat k]"
    by (simp_all add: getitem_in_range)
  ultimately have "getitem text (k - 1) \<in> {Inr (str ''.''), Inr (str ''!''), Inr (str ''?'')}"
    "getitem text k \<in> {Inr (str '' ''), Inr (str ''\<newline>'')}"
    by (auto simp: str_def)
  with k show ?thesis by blast
qed

theorem cut_at_last_sentence_ending_witness:
  "TWEET_LIMIT < len two_sentences \<and> ending_at two_sentences 101 \<and> ending_at two_sentences 153 \<and>
   find_sentence_boundary two_sentences TWEET_LIMIT = Inr 153"
proof -
  have l: "TWEET_LIMIT < len two_sentences"
    by (simp add: two_sentences_def len_def TWEET_LIMIT_def str_def)
  have e: "ending_at two_sentences 101" "ending_at two_sentences 153"
    by (simp_all add: ending_at_iff two_sentences_def len_def str_def nth_append)
  have "(1::int) \<le> 153" "(153::int) \<le> TWEET_LIMIT - 20" by (simp_all add: TWEET_LIMIT_def)
  from cut_at_last_sentence_ending [OF l this e(2)] obtain k where
    k: "find_sentence_boundary two_sentences TWEET_LIMIT = Inr k" "153 \<le> k"
       "k \<le> TWEET_LIMIT - 20" "ending_at two_sentences k" by blast
  then have "k = 153" by (rule two_sentences_cut)
  with k l e show ?thesis by simp
qed

text \<open>
  C4 as stated fails: a period that is not followed by a space or a newline does not
  qualify. In \<open>lone_period\<close> the period at index 100 is followed by a letter, and the cut
  is the hard cutoff 240.
\<close>

theorem lone_period_counterexample:
  "TWEET_LIMIT < len lone_period \<and> getitem lone_period 100 = Inr (str ''.'') \<and>
   getitem lone_period 101 = Inr (str ''b'') \<and>
   find_sentence_boundary lone_period TWEET_LIMIT = Inr 240"
proof -
  have l: "TWEET_LIMIT < len lone_period"
    by (simp add: lone_period_def len_def TWEET_LIMIT_def str_def)
  have "32 \<notin> set lone_period" "10 \<notin> set lone_period"
    by (simp_all add: lone_period_def str_def)
  with l have "find_sentence_boundary lone_period TWEET_LIMIT = Inr (TWEET_LIMIT - 20)"
    by (rule fsb_no_white)
  moreover have "getitem lone_period 100 = Inr (str ''.'')" "getitem lone_period 101 = Inr (str ''b'')"
    by (simp_all add: getitem_def len_def lone_period_def str_def nth_append)
  ultimately show ?thesis using l by (simp add: TWEET_LIMIT_def)
qed

text \<open>
  C5. When the remaining (trimmed) text is longer than the limit and no position of the
  scanned range has a sentence ending, the cut is the rightmost space of the scanned
  range \<open>0..max_length - 20\<close>: no space lies between the cut and the end of the range.
\<close>

theorem fallback_rightmost_space:
  assumes "clean_and_trim text = text" "max_length < len text"
      "\<forall>m. 0 \<le> m \<and> m \<le> max_length - 20 \<longrightarrow> \<not> ending_at text m"
      "0 \<le> i" "i \<le> max_length - 20" "space_at text i"
  shows "\<exists>k. find_sentence_boundary text max_length = Inr k \<and> space_at text k \<and> i \<le> k \<and>
            k \<le> max_length - 20 \<and> (\<forall>m. k < m \<and> m \<le> max_length - 20 \<longrightarrow> \<not> space_at text m)"
proof -
  from stripped_no_leading_space [OF assms(1)] assms(4,6) have "1 \<le> i"
    by (cases "i = 0") auto
  moreover from assms(3) have "\<forall>m. 1 \<le> m \<and> m \<le> max_length - 20 \<longrightarrow> \<not> ending_at text m"
    by simp
  ultimately show ?thesis using assms(2,5,6) by (intro fsb_last_space) 
qed

theorem fallback_rightmost_space_witness:
  "clean_and_trim two_spaces = two_spaces \<and> TWEET_LIMIT < len two_spaces \<and>
   space_at two_spaces 100 \<and> space_at two_spaces 151 \<and>
   find_sentence_boundary two_spaces TWEET_LIMIT = Inr 151"
proof -
  have s: "clean_and_trim two_spaces = two_spaces"
    unfolding clean_and_trim_def
    by (rule strip_fixed) (simp_all add: two_spaces_def str_def isspace_def)
  have l: "TWEET_LIMIT < len two_spaces"
    by (simp add: two_spaces_def len_def TWEET_LIMIT_def str_def)
  have "46 \<notin> set two_spaces" "33 \<notin> set two_spaces" "63 \<notin> set two_spaces"
    by (simp_all add: two_spaces_def str_def)
  then have e: "\<forall>m. 0 \<le> m \<and> m \<le> TWEET_LIMIT - 20 \<longrightarrow> \<not> ending_at two_spaces m"
    by (auto dest: ending_at_punct)
  have sp: "space_at two_spaces 100" "space_at two_spaces 151"
    by (simp_all add: space_at_iff two_spaces_def len_def str_def nth_append)
  have "(0::int) \<le> 151" "(151::int) \<le> TWEET_LIMIT - 20" by (simp_all add: TWEET_LIMIT_def)
  from fallback_rightmost_space [OF s l e this sp(2)] obtain k where
    k: "find_sentence_boundary two_spaces TWEET_LIMIT = Inr k" "space_at two_spaces k" "151 \<le> k"
       "k \<le> TWEET_LIMIT - 20" by blast
  have "k = 151"
  proof (rule ccontr)
    assume "k \<noteq> 151"
    with k(3,4) have r: "151 < k" "k \<le> 240" by (simp_all add: TWEET_LIMIT_def)
    then have "two_spaces ! nat k = 98"
      by (auto simp: two_spaces_def str_def nth_append nth_Cons')
    moreover from r k(2) have "two_spaces ! nat k = 32"
      by (simp add: space_at_iff two_spaces_def len_def str_def)
    ultimately show False by simp
  qed
  with k s l sp show ?thesis by simp
qed



text \<open>
  C7. The segmenter returns for every content string, with at most as many fragments as
  the content has characters (every round of the loop that does not end it adds one
  fragment). Whenever the remaining text is longer than the limit the boundary search
  returns a cut that is strictly positive and strictly before the end of the remaining
  text, and the text left after the cut is strictly shorter than the remaining text.
\<close>

theorem segmenter_terminates:
  "(\<exists>tweets. split_into_tweets content = Inr tweets \<and> length tweets \<le> length content) \<and>
   (TWEET_LIMIT < len remaining \<longrightarrow>
      (\<exists>k. find_sentence_boundary remaining TWEET_LIMIT = Inr k \<and> 0 < k \<and> k < len remaining \<and>
         length (clean_and_trim (slice_from remaining k)) < length remaining))"
proof
  from segmenter_count [of content]
  show "\<exists>tweets. split_into_tweets content = Inr tweets \<and> length tweets \<le> length content" .
next
  show "TWEET_LIMIT < len remaining \<longrightarrow>
      (\<exists>k. find_sentence_boundary remaining TWEET_LIMIT = Inr k \<and> 0 < k \<and> k < len remaining \<and>
         length (clean_and_trim (slice_from remaining k)) < length remaining)"
  proof
    assume long: "TWEET_LIMIT < len remaining"
    from fsb_total obtain k where k: "find_sentence_boundary remaining TWEET_LIMIT = Inr k"
      by blast
    from split_shrinks [OF long k] k show
      "\<exists>k. find_sentence_boundary remaining TWEET_LIMIT = Inr k \<and> 0 < k \<and> k < len remaining \<and>
         length (clean_and_trim (slice_from remaining k)) < length remaining"
      by auto
  qed
qed

theorem segmenter_terminates_witness:
  "TWEET_LIMIT < len (replicate 300 (97::nat)) \<and>
   (\<exists>k. find_sentence_boundary (replicate 300 97) TWEET_LIMIT = Inr k \<and> 0 < k \<and>
      k < len (replicate 300 (97::nat)) \<and>
      length (clean_and_trim (slice_from (replicate 300 97) k)) < length (replicate 300 (97::nat)))"
proof -
  have l: "TWEET_LIMIT < len (replicate 300 (97::nat))"
    by (simp add: len_def TWEET_LIMIT_def)
  from segmenter_terminates [of "[]" "replicate 300 97"] l show ?thesis by blast
qed

text \<open>
  C8. Empty or white-space-only content gives the empty sequence; content that is at most
  \<open>TWEET_LIMIT\<close> long and not white space only gives exactly one fragment, the trimmed
  content.
\<close>

theorem short_content:
  "((\<forall>c\<in>set content. isspace c) \<longrightarrow> split_into_tweets content = Inr []) \<and>
   (\<not> (\<forall>c\<in>set content. isspace c) \<and> len content \<le> TWEET_LIMIT \<longrightarrow>
      split_into_tweets content = Inr [clean_and_trim content])"
proof (intro conjI impI)
  assume "\<forall>c\<in>set content. isspace c"
  then have "clean_and_trim content = []"
    by (simp add: clean_and_trim_def strip_all_space)
  then have "split_loop [] content = Inr []" by (rule split_loop_blank)
  moreover have "repair 0 [] = []" by (rule repair_noop) simp
  ultimately show "split_into_tweets content = Inr []"
    by (simp add: split_into_tweets_def)
next
  assume a: "\<not> (\<forall>c\<in>set content. isspace c) \<and> len content \<le> TWEET_LIMIT"
  then have ne: "clean_and_trim content \<noteq> []"
    by (simp add: clean_and_trim_def strip_all_space)
  from a len_strip_le [of content] have le: "len (clean_and_trim content) \<le> TWEET_LIMIT"
    by (simp add: clean_and_trim_def)
  from split_loop_short [OF ne le, of "[]"]
  have "split_loop [] content = Inr [clean_and_trim content]" by simp
  moreover from le have "repair 0 [clean_and_trim content] = [clean_and_trim content]"
    by (intro repair_noop) simp
  ultimately show "split_into_tweets content = Inr [clean_and_trim content]"
    by (simp add: split_into_tweets_def)
qed

theorem short_content_witness:
  "split_into_tweets (str ''  '') = Inr [] \<and>
   len (str '' hi there '') \<le> TWEET_LIMIT \<and>
   split_into_tweets (str '' hi there '') = Inr [str ''hi there'']"
proof -
  have a: "\<forall>c\<in>set (str ''  ''). isspace c" by (simp add: str_def isspace_def)
  have b: "\<not> (\<forall>c\<in>set (str '' hi there ''). isspace c)" by (simp add: str_def isspace_def)
  have c: "len (str '' hi there '') \<le> TWEET_LIMIT" by (simp add: str_def len_def TWEET_LIMIT_def)
  have d: "clean_and_trim (str '' hi there '') = str ''hi there''"
    by (simp add: clean_and_trim_def strip_def str_def isspace_def)
  from short_content [of "str ''  ''"] a short_content [of "str '' hi there ''"] b c d
  show ?thesis by simp
qed

text \<open>
  C9. Running the segmenter again on its own output joined with single spaces gives a
  sequence with the same non-white-space characters, in the same order, as the first
  run's output.
\<close>

theorem resegment_same_text:
  "\<exists>tweets tweets'. split_into_tweets content = Inr tweets \<and>
     split_into_tweets (join (str '' '') tweets) = Inr tweets' \<and>
     filter (\<lambda>c. \<not> isspace c) (concat tweets') = filter (\<lambda>c. \<not> isspace c) (concat tweets)"
proof -
  from segmenter_summary [of content] obtain ts where
    ts: "split_into_tweets content = Inr ts" by blast
  from segmenter_summary [of "join (str '' '') ts"] obtain ts' where
    ts': "split_into_tweets (join (str '' '') ts) = Inr ts'"
      "filter (\<lambda>c. \<not> isspace c) (concat ts') = filter (\<lambda>c. \<not> isspace c) (join (str '' '') ts)"
    by blast
  from ts'(2) have "filter (\<lambda>c. \<not> isspace c) (concat ts') = filter (\<lambda>c. \<not> isspace c) (concat ts)"
    by (simp only: filter_join_space)
  with ts ts'(1) show ?thesis by blast
qed

text \<open>
  C10. The forced split of the verification pass never runs: every fragment the loop
  produces is at most \<open>TWEET_LIMIT\<close> long, so the guard \<open>len(tweet) > TWEET_LIMIT\<close> is false
  for each of them and the pass returns the list unchanged; and on a text longer than the
  limit the boundary search returns a cut of at most \<open>TWEET_LIMIT - 20\<close>.
\<close>

theorem repair_pass_unreachable:
  "(\<exists>tweets. split_loop [] content = Inr tweets \<and>
      (\<forall>t\<in>set tweets. \<not> len t > TWEET_LIMIT) \<and> repair 0 tweets = tweets \<and>
      split_into_tweets content = Inr tweets) \<and>
   (TWEET_LIMIT < len text \<longrightarrow>
      (\<exists>k. find_sentence_boundary text TWEET_LIMIT = Inr k \<and> k \<le> TWEET_LIMIT - 20))"
proof
  from segmenter_summary [of content]
  show "\<exists>tweets. split_loop [] content = Inr tweets \<and>
      (\<forall>t\<in>set tweets. \<not> len t > TWEET_LIMIT) \<and> repair 0 tweets = tweets \<and>
      split_into_tweets content = Inr tweets"
    by (auto simp: not_less)
next
  show "TWEET_LIMIT < len text \<longrightarrow>
      (\<exists>k. find_sentence_boundary text TWEET_LIMIT = Inr k \<and> k \<le> TWEET_LIMIT - 20)"
  proof
    assume "TWEET_LIMIT < len text"
    from fsb_range [OF this] show
      "\<exists>k. find_sentence_boundary text TWEET_LIMIT = Inr k \<and> k \<le> TWEET_LIMIT - 20"
      by (auto simp: TWEET_LIMIT_def)
  qed
qed

theorem repair_pass_unreachable_witness:
  "(\<exists>tweets. split_loop [] (str ''Hello world.'') = Inr tweets \<and> tweets \<noteq> [] \<and>
      (\<forall>t\<in>set tweets. \<not> len t > TWEET_LIMIT) \<and> repair 0 tweets = tweets \<and>
      split_into_tweets (str ''Hello world.'') = Inr tweets) \<and>
   TWEET_LIMIT < len (replicate 300 (97::nat)) \<and>
   (\<exists>k. find_sentence_boundary (replicate 300 97) TWEET_LIMIT = Inr k \<and> k \<le> TWEET_LIMIT - 20)"
proof -
  have l: "TWEET_LIMIT < len (replicate 300 (97::nat))"
    by (simp add: len_def TWEET_LIMIT_def)
  from repair_pass_unreachable [of "str ''Hello world.''" "replicate 300 97"] l
  show ?thesis by (auto simp: split_hello)
qed

end
